theory Spec2Isabelle
  imports Main "HOL-Library.Word"
begin

unbundle bit_operations_syntax

section \<open>Machine types and constants\<close>

text \<open>
  The kernel targets 32-bit x86: \<open>unsigned long\<close>, \<open>unsigned int\<close> and pointers are
  32-bit words, \<open>unsigned char\<close> is a byte.
\<close>

type_synonym u32 = "32 word"
type_synonym u8 = "8 word"

text \<open>
  Modelled from the spec: \<open>Machine::PAGE_SIZE\<close>, \<open>PageTable::PAGE_SIZE\<close> and
  \<open>ContFramePool::FRAME_SIZE\<close> are declared in headers that are not part of the
  sources at hand; the specification fixes all of them to 4096 bytes.
\<close>

definition PAGE_SIZE :: u32 where
  "PAGE_SIZE = 4096"

definition FRAME_SIZE :: u32 where
  "FRAME_SIZE = 4096"

text \<open>
  Modelled from the spec: \<open>INFO_FRAME_CAPACITY\<close> is declared in the missing
  \<open>cont_frame_pool.H\<close>; the specification gives it as \<open>PAGE_SIZE * 4\<close>.
\<close>

definition INFO_FRAME_CAPACITY :: u32 where
  "INFO_FRAME_CAPACITY = 4096 * 4"

section \<open>Contiguous frame pool (cont\_frame\_pool.C)\<close>

datatype FrameState = Free | Used | HoS

text \<open>
  The object's fields. \<open>bitmap\<close> holds the bytes \<open>bitmap[0]\<close>, \<open>bitmap[1]\<close>, ... found
  at the bitmap pointer \<open>bitmap_ptr\<close>; it is total because the C code indexes the
  pointer without any bound.
\<close>

record ContFramePool =
  base_frame_no :: u32
  nframes :: u32
  nFreeFrames :: u32
  info_frame_no :: u32
  bitmap_ptr :: u32
  bitmap :: "nat \<Rightarrow> u8"

definition get_state :: "ContFramePool \<Rightarrow> u32 \<Rightarrow> FrameState" where
  "get_state p fno_arg =
     (let frame_no = fno_arg * 2;
          bit_slot = unat (drop_bit 3 frame_no);
          bit_mask_1 = (push_bit (unat (frame_no AND 7)) 1 :: u8);
          bit_mask_2 = (push_bit 1 bit_mask_1 :: u8)
      in if bitmap p bit_slot AND bit_mask_1 = 0 then Free
         else if bitmap p bit_slot AND bit_mask_2 \<noteq> 0 then HoS else Used)"

definition set_state :: "ContFramePool \<Rightarrow> u32 \<Rightarrow> FrameState \<Rightarrow> ContFramePool" where
  "set_state p fno_arg st =
     (let frame_no = fno_arg * 2;
          bit_slot = unat (drop_bit 3 frame_no);
          bit_shift = unat (frame_no AND 7);
          zeroed = bitmap p bit_slot AND NOT (push_bit bit_shift 3);
          b = (case st of
                 Free \<Rightarrow> zeroed
               | Used \<Rightarrow> zeroed OR push_bit bit_shift 1
               | HoS \<Rightarrow> zeroed OR push_bit bit_shift 3)
      in p\<lparr>bitmap := (bitmap p)(bit_slot := b)\<rparr>)"

text \<open>
  The three marking loops \<open>for (fno = lo; fno < hi; fno++) set_state(fno - off, st)\<close>;
  the constructor and \<open>get_frames\<close> use \<open>off = 0\<close>, \<open>mark_inaccessible\<close> subtracts the
  pool's base. The counter stays below \<open>hi\<close>, a 32-bit value, so \<open>fno++\<close> never wraps.
\<close>

function set_loop :: "ContFramePool \<Rightarrow> u32 \<Rightarrow> nat \<Rightarrow> nat \<Rightarrow> FrameState \<Rightarrow> ContFramePool" where
  "set_loop p off fno hi st =
     (if fno < hi then set_loop (set_state p (of_nat fno - off) st) off (Suc fno) hi st else p)"
  by pat_completeness auto
termination
  by (relation "measure (\<lambda>(p, off, fno, hi, st). hi - fno)") auto

declare set_loop.simps [simp del]

definition needed_info_frames :: "u32 \<Rightarrow> u32" where
  "needed_info_frames n_frames_arg =
     n_frames_arg div INFO_FRAME_CAPACITY + (if n_frames_arg mod INFO_FRAME_CAPACITY > 0 then 1 else 0)"

text \<open>
  The constructor, run on whatever bytes \<open>mem\<close> the bitmap memory holds beforehand.
  Linking the new pool into the global list is \<open>register_pool\<close> below.
\<close>

definition ContFramePool_new :: "u32 \<Rightarrow> u32 \<Rightarrow> u32 \<Rightarrow> (nat \<Rightarrow> u8) \<Rightarrow> ContFramePool" where
  "ContFramePool_new base_frame_no_arg n_frames_arg info_frame_no_arg mem =
     (let p0 = \<lparr>base_frame_no = base_frame_no_arg, nframes = n_frames_arg, nFreeFrames = n_frames_arg,
                 info_frame_no = info_frame_no_arg,
                 bitmap_ptr = (if info_frame_no_arg = 0 then base_frame_no_arg * FRAME_SIZE
                               else info_frame_no_arg * FRAME_SIZE),
                 bitmap = mem\<rparr>;
          n_info_frames = needed_info_frames n_frames_arg;
          p1 = set_loop p0 0 0 (unat n_frames_arg) Free
      in if info_frame_no_arg = 0
         then (let p2 = set_loop p1 0 0 (unat n_info_frames) Used;
                   p3 = p2\<lparr>nFreeFrames := nFreeFrames p2 - n_info_frames\<rparr>
               in set_state p3 0 HoS)
         else p1)"

text \<open>
  The scan of \<open>get_frames\<close>: \<open>free\<close> counts the current run of free frames and the loop
  breaks once it equals the request. The result is \<open>(start, free)\<close> as the two locals
  stand after the loop. \<open>free\<close> never exceeds \<open>fno + 1\<close>, so \<open>fno - free + 1\<close> needs no
  wrap-around and is written \<open>Suc fno - free\<close>.
\<close>

function scan :: "ContFramePool \<Rightarrow> nat \<Rightarrow> nat \<Rightarrow> nat \<Rightarrow> nat \<times> nat" where
  "scan p n fno free =
     (if fno < unat (nframes p)
      then (let free' = (if get_state p (of_nat fno) = Free then Suc free else 0)
            in if free' = n then (Suc fno - free', free') else scan p n (Suc fno) free')
      else (0, free))"
  by pat_completeness auto
termination
  by (relation "measure (\<lambda>(p, n, fno, free). unat (nframes p) - fno)") auto

declare scan.simps [simp del]

text \<open>
  \<open>get_frames\<close> returns the frame number and the updated pool; 0 is the error sentinel
  (the console messages are not modelled).
\<close>

definition get_frames :: "ContFramePool \<Rightarrow> u32 \<Rightarrow> u32 \<times> ContFramePool" where
  "get_frames p n_frames_arg =
     (if n_frames_arg > nFreeFrames p then (0, p)
      else (let (start, free) = scan p (unat n_frames_arg) 0 0
            in if free \<noteq> unat n_frames_arg then (0, p)
               else (let p1 = set_loop p 0 start (unat (of_nat start + n_frames_arg :: u32)) Used;
                         p2 = set_state p1 (of_nat start) HoS
                     in (of_nat start + base_frame_no p,
                         p2\<lparr>nFreeFrames := nFreeFrames p2 - n_frames_arg\<rparr>))))"

definition mark_inaccessible :: "ContFramePool \<Rightarrow> u32 \<Rightarrow> u32 \<Rightarrow> ContFramePool" where
  "mark_inaccessible p base_frame_no_arg n_frames_arg =
     (let p1 = set_loop p (base_frame_no p) (unat base_frame_no_arg)
                 (unat (base_frame_no_arg + n_frames_arg)) Used
      in set_state p1 base_frame_no_arg HoS)"

text \<open>
  The do-while loop of \<open>_release_frames\<close>. Besides the pool it returns the frame indices
  handed to \<open>get_state\<close> by the loop condition, in order: C evaluates
  \<open>get_state(fno) == Used\<close> before \<open>fno < nframes\<close>, so every tested index is read.
\<close>

function release_loop :: "ContFramePool \<Rightarrow> u32 \<Rightarrow> ContFramePool \<times> u32 list" where
  "release_loop p fno =
     (let p' = (set_state p fno Free)\<lparr>nFreeFrames := nFreeFrames p + 1\<rparr>;
          fno' = fno + 1
      in if get_state p' fno' = Used \<and> fno' < nframes p'
         then (let (q, reads) = release_loop p' fno' in (q, fno' # reads))
         else (p', [fno']))"
  by pat_completeness auto

termination release_loop
proof (relation "measure (\<lambda>(p, fno). if fno < nframes p then unat (nframes p) - unat fno
                                      else Suc (unat (nframes p)))", goal_cases)
  case 1
  show ?case by simp
next
  case (2 p fno p' fno')
  then have lt: "unat (fno + 1) < unat (nframes p)"
    by (simp add: word_less_nat_alt set_state_def Let_def)
  show ?case
  proof (cases "fno < nframes p")
    case True
    then have "unat fno < unat (nframes p)"
      by (simp add: word_less_nat_alt)
    moreover have "unat (nframes p) < 2 ^ 32"
      using unsigned_less [of "nframes p"] by simp
    ultimately have "unat fno + unat (1 :: u32) < 2 ^ LENGTH(32)"
      by simp
    then have "unat (fno + 1) = unat fno + unat (1 :: u32)"
      by (simp only: unat_add_lem)
    with True lt 2 show ?thesis
      by (simp add: set_state_def Let_def)
  next
    case False
    with lt 2 show ?thesis
      by (simp add: set_state_def Let_def)
  qed
qed

declare release_loop.simps [simp del]

text \<open>
  The member function \<open>_release_frames\<close>, twice: \<open>release_frames_reads\<close> is the list
  of indices it hands to \<open>get_state\<close>, the first check included, and
  \<open>release_frames_pool\<close> is the pool it leaves behind.
\<close>

definition release_frames_reads :: "ContFramePool \<Rightarrow> u32 \<Rightarrow> u32 list" where
  "release_frames_reads p first_frame_no =
     (if get_state p first_frame_no \<noteq> HoS then [first_frame_no]
      else first_frame_no # snd (release_loop p first_frame_no))"

definition release_frames_pool :: "ContFramePool \<Rightarrow> u32 \<Rightarrow> ContFramePool" where
  "release_frames_pool p first_frame_no =
     (if get_state p first_frame_no \<noteq> HoS then p
      else fst (release_loop p first_frame_no))"

text \<open>
  The global pool list: \<open>head\<close> first, each constructor prepends itself. The static
  \<open>release_frames\<close> hands the pool-relative index to the first pool whose range holds
  the frame; the subtraction wraps for frames below a pool's base.
\<close>

definition register_pool :: "ContFramePool \<Rightarrow> ContFramePool list \<Rightarrow> ContFramePool list" where
  "register_pool p pools = p # pools"

fun release_frames :: "ContFramePool list \<Rightarrow> u32 \<Rightarrow> ContFramePool list" where
  "release_frames [] first_frame_no = []"
| "release_frames (cursor # rest) first_frame_no =
     (let adjusted_fno = first_frame_no - base_frame_no cursor
      in if adjusted_fno < nframes cursor
         then release_frames_pool cursor adjusted_fno # rest
         else cursor # release_frames rest first_frame_no)"

section \<open>VM pool (vm\_pool.C)\<close>

text \<open>
  \<open>struct Region\<close> and the pool object. The source's field names \<open>base_address\<close> and
  \<open>size\<close> occur in both; the region's fields carry the suffix \<open>_r\<close>, and the pool's
  \<open>size\<close> the suffix \<open>_p\<close>. The two arrays \<open>alloc[]\<close> and \<open>free[]\<close> live in the
  first and second page of the pool's window and are modelled as separate arrays, which
  is what the layout gives as long as one array fits into one page.
\<close>

record Region =
  base_address_r :: u32
  size_r :: u32

record VMPool =
  base_address :: u32
  size_p :: u32
  alloc :: "nat \<Rightarrow> Region"
  free :: "nat \<Rightarrow> Region"

datatype vm_error = INVALID_SIZE | NO_FREE_REGION | NO_ALLOC_REGION | OOB_ADDR | INVALID_ADDR

text \<open>
  The four slot searches \<open>for (idx = 0; idx < MAX_REGIONS; idx++) if (test) goto found\<close>:
  the first index below the bound that passes the test. \<open>MAX_REGIONS\<close> is declared in
  the missing \<open>vm_pool.H\<close> and is a parameter of every operation that uses it.
\<close>

function first_index :: "(nat \<Rightarrow> bool) \<Rightarrow> nat \<Rightarrow> nat \<Rightarrow> nat option" where
  "first_index test idx bound =
     (if idx < bound then (if test idx then Some idx else first_index test (Suc idx) bound)
      else None)"
  by pat_completeness auto
termination
  by (relation "measure (\<lambda>(test, idx, bound). bound - idx)") auto

declare first_index.simps [simp del]

text \<open>
  The constructor: the assertion \<open>size > 2 * PAGE_SIZE\<close> is fatal (\<open>None\<close>);
  \<open>memset\<close> zeroes both management pages before the two initial regions are written.
\<close>

definition VMPool_new :: "u32 \<Rightarrow> u32 \<Rightarrow> VMPool option" where
  "VMPool_new base_address_arg size_arg =
     (if \<not> size_arg > 2 * PAGE_SIZE then None
      else Some \<lparr>base_address = base_address_arg, size_p = size_arg,
                  alloc = (\<lambda>_. \<lparr>base_address_r = 0, size_r = 0\<rparr>)
                            (0 := \<lparr>base_address_r = base_address_arg, size_r = PAGE_SIZE * 2\<rparr>),
                  free = (\<lambda>_. \<lparr>base_address_r = 0, size_r = 0\<rparr>)
                            (0 := \<lparr>base_address_r = base_address_arg + PAGE_SIZE * 2,
                                   size_r = size_arg - 2 * PAGE_SIZE\<rparr>)\<rparr>)"

text \<open>
  \<open>allocate\<close> with the error code it logs made visible; \<open>allocate\<close> itself returns the
  address, 0 on every error.
\<close>

definition allocate_result :: "nat \<Rightarrow> VMPool \<Rightarrow> u32 \<Rightarrow> (vm_error + u32) \<times> VMPool" where
  "allocate_result MAX_REGIONS v size_arg =
     (if size_arg = 0 \<or> size_arg > size_p v - 2 * PAGE_SIZE then (Inl INVALID_SIZE, v)
      else (let adj_size = ((size_arg + PAGE_SIZE - 1) div PAGE_SIZE) * PAGE_SIZE
            in case first_index (\<lambda>idx. size_r (free v idx) \<ge> adj_size) 0 MAX_REGIONS of
                 None \<Rightarrow> (Inl NO_FREE_REGION, v)
               | Some idx \<Rightarrow>
                   (let new_addr = base_address_r (free v idx)
                    in case first_index (\<lambda>i. size_r (alloc v i) = 0) 0 MAX_REGIONS of
                         None \<Rightarrow> (Inl NO_ALLOC_REGION, v)
                       | Some i \<Rightarrow>
                           (Inr new_addr,
                            v\<lparr>alloc := (alloc v)(i := \<lparr>base_address_r = new_addr, size_r = adj_size\<rparr>),
                              free := (free v)(idx :=
                                 \<lparr>base_address_r = base_address_r (free v idx) + adj_size,
                                  size_r = size_r (free v idx) - adj_size\<rparr>)\<rparr>))))"

definition allocate :: "nat \<Rightarrow> VMPool \<Rightarrow> u32 \<Rightarrow> u32 \<times> VMPool" where
  "allocate MAX_REGIONS v size_arg =
     (case allocate_result MAX_REGIONS v size_arg of
        (Inl error, v') \<Rightarrow> (0, v')
      | (Inr new_addr, v') \<Rightarrow> (new_addr, v'))"

text \<open>
  The page loop of \<open>release\<close>,
  \<open>for (addr = start; addr < start + region_size; addr += PAGE_SIZE) free_page(addr)\<close>,
  yields the addresses handed to \<open>PageTable::free_page\<close>. The 32-bit counter can wrap
  past the bound, so the loop need not end: \<open>None\<close> stands for not returning.
\<close>

partial_function (option) free_pages_loop :: "u32 \<Rightarrow> u32 \<Rightarrow> u32 list option" where
  "free_pages_loop addr bound =
     (if addr < bound
      then Option.bind (free_pages_loop (addr + PAGE_SIZE) bound) (\<lambda>pages. Some (addr # pages))
      else Some [])"

text \<open>
  \<open>release\<close> returns the pool together with either the error code it logs or the pages
  it freed; \<open>None\<close> when the page loop does not end.
\<close>

definition release :: "nat \<Rightarrow> VMPool \<Rightarrow> u32 \<Rightarrow> (VMPool \<times> (vm_error + u32 list)) option" where
  "release MAX_REGIONS v start_address =
     (if start_address < base_address v \<or> start_address \<ge> base_address v + size_p v
      then Some (v, Inl OOB_ADDR)
      else case first_index (\<lambda>idx. start_address = base_address_r (alloc v idx)
                                     \<and> size_r (alloc v idx) > 0) 0 MAX_REGIONS of
             None \<Rightarrow> Some (v, Inl INVALID_ADDR)
           | Some idx \<Rightarrow>
               (let region_size = size_r (alloc v idx)
                in case first_index (\<lambda>i. size_r (free v i) = 0) 0 MAX_REGIONS of
                     None \<Rightarrow> Some (v, Inl NO_FREE_REGION)
                   | Some i \<Rightarrow>
                       (let v1 = v\<lparr>free := (free v)(i :=
                                     \<lparr>base_address_r = start_address, size_r = region_size\<rparr>)\<rparr>;
                            v2 = v1\<lparr>alloc := (alloc v1)(idx := (alloc v1 idx)\<lparr>size_r := 0\<rparr>)\<rparr>
                        in Option.bind (free_pages_loop start_address (start_address + region_size))
                             (\<lambda>pages. Some (v2, Inr pages)))))"

section \<open>Page table (page\_table.C)\<close>


text \<open>
  The machine state \<open>free_page\<close> works on: the 32-bit words reachable through pointers
  (the page-table entry is read and written through the recursive window), the control
  register \<open>cr3\<close> with the log of the values written to it, the static
  \<open>current_page_table\<close> and the global list of frame pools. The bitmaps of the frame
  pools are kept inside the pools; they occupy other frames than the page tables.
\<close>

record PageTable =
  page_directory :: u32

record Machine =
  memory :: "u32 \<Rightarrow> u32"
  cr3 :: u32
  cr3_writes :: "u32 list"
  current_page_table :: "PageTable option"
  pools :: "ContFramePool list"






section \<open>Scheduler (scheduler.C)\<close>

text \<open>
  \<open>Thread *\<close> pointers are thread identities, \<open>None\<close> is \<open>NULL\<close>. The state holds the
  queue's \<open>head\<close> and \<open>tail\<close>, the \<open>next\<close> field of every thread object (initialised
  to \<open>NULL\<close> in the class), the running thread, the termination thread with the cargo
  slots, the threads destroyed by \<open>delete\<close> so far, and the interrupt flag.
\<close>

type_synonym thread = nat

record Scheduler =
  queue_head :: "thread option"
  queue_tail :: "thread option"
  thread_next :: "thread \<Rightarrow> thread option"
  current_thread :: "thread option"
  termination_thread :: thread
  cargo :: "thread \<Rightarrow> thread option"
  deleted :: "thread list"
  interrupts_enabled :: bool

definition enqueue :: "Scheduler \<Rightarrow> thread \<Rightarrow> Scheduler" where
  "enqueue s thread_arg =
     (case queue_tail s of
        None \<Rightarrow> s\<lparr>queue_head := Some thread_arg, queue_tail := Some thread_arg\<rparr>
      | Some tail \<Rightarrow> s\<lparr>thread_next := (thread_next s)(tail := Some thread_arg),
                        queue_tail := Some thread_arg\<rparr>)"

definition dequeue :: "Scheduler \<Rightarrow> thread option \<times> Scheduler" where
  "dequeue s =
     (case queue_head s of
        None \<Rightarrow> (None, s)
      | Some head \<Rightarrow>
          (let s1 = s\<lparr>queue_head := thread_next s head\<rparr>;
               s2 = (if queue_head s1 = None then s1\<lparr>queue_tail := None\<rparr> else s1)
           in (Some head, s2)))"

text \<open>
  The search loop of \<open>terminate\<close>,
  \<open>while (prev && prev->next != _thread) prev = prev->next\<close>. On a cyclic chain that
  does not hold the thread it does not end, hence the option monad.
\<close>

partial_function (option) find_prev ::
    "(thread \<Rightarrow> thread option) \<Rightarrow> thread \<Rightarrow> thread option \<Rightarrow> thread option option" where
  "find_prev nxt thread_arg prev =
     (case prev of
        None \<Rightarrow> Some None
      | Some pr \<Rightarrow> if nxt pr \<noteq> Some thread_arg then find_prev nxt thread_arg (nxt pr)
                   else Some (Some pr))"

text \<open>
  \<open>terminate\<close> takes the pointer by reference and returns the state with the pointer's
  new value. For the running thread it stores the thread in the termination thread's cargo
  and dispatches to it; the context switch ends the model there. Interrupts are switched
  back on only at the end of the unlink path.
\<close>

definition terminate :: "Scheduler \<Rightarrow> thread option \<Rightarrow> (Scheduler \<times> thread option) option" where
  "terminate s thread_arg =
     (let s0 = s\<lparr>interrupts_enabled := False\<rparr>
      in case thread_arg of
           None \<Rightarrow> Some (s0, None)
         | Some t \<Rightarrow>
             if Some t = current_thread s0
             then Some (s0\<lparr>cargo := (cargo s0)(termination_thread s0 := Some t),
                            current_thread := Some (termination_thread s0)\<rparr>, Some t)
             else if queue_head s0 = queue_tail s0
             then (if queue_head s0 = Some t
                   then Some (s0\<lparr>deleted := deleted s0 @ [t],
                                  queue_head := None, queue_tail := None\<rparr>, None)
                   else Some (s0, Some t))
             else Option.bind (find_prev (thread_next s0) t (queue_head s0))
                    (\<lambda>prev. case prev of
                        None \<Rightarrow> Some (s0, Some t)
                      | Some pr \<Rightarrow>
                          if thread_next s0 pr \<noteq> Some t then Some (s0, Some t)
                          else (let s1 = s0\<lparr>thread_next := (thread_next s0)(pr := thread_next s0 t)\<rparr>;
                                    s2 = (if Some t = queue_tail s1 then s1\<lparr>queue_tail := Some pr\<rparr>
                                          else s1);
                                    s3 = s2\<lparr>deleted := deleted s2 @ [t]\<rparr>
                                in Some (s3\<lparr>interrupts_enabled := True\<rparr>, None))))"

text \<open>
  The scheduler as its constructor leaves it: an empty queue, every thread's \<open>next\<close>
  still \<open>NULL\<close>, nothing running yet.
\<close>

definition Scheduler_new :: "thread \<Rightarrow> Scheduler" where
  "Scheduler_new term_thread =
     \<lparr>queue_head = None, queue_tail = None, thread_next = (\<lambda>_. None), current_thread = None,
      termination_thread = term_thread, cargo = (\<lambda>_. None), deleted = [],
      interrupts_enabled = False\<rparr>"

text \<open>
  Running a sequence of queue operations from a given state and collecting what the
  dequeues return; and the strict FIFO queue of the specification, to compare with.
\<close>

datatype queue_op = Enqueue thread | Dequeue

fun run_ops :: "Scheduler \<Rightarrow> queue_op list \<Rightarrow> thread option list" where
  "run_ops s [] = []"
| "run_ops s (Enqueue t # ops) = run_ops (enqueue s t) ops"
| "run_ops s (Dequeue # ops) = (let (r, s') = dequeue s in r # run_ops s' ops)"

fun fifo_ops :: "thread list \<Rightarrow> queue_op list \<Rightarrow> thread option list" where
  "fifo_ops q [] = []"
| "fifo_ops q (Enqueue t # ops) = fifo_ops (q @ [t]) ops"
| "fifo_ops [] (Dequeue # ops) = None # fifo_ops [] ops"
| "fifo_ops (t # q) (Dequeue # ops) = Some t # fifo_ops q ops"

text \<open>Thread 3 is running, threads 1 and 2 were added in this order.\<close>

definition two_queued :: Scheduler where
  "two_queued = enqueue (enqueue ((Scheduler_new 0)\<lparr>current_thread := Some 3\<rparr>) 1) 2"

section \<open>Scenarios and auxiliary notions\<close>

text \<open>
  The call sequence of the specification's third scenario on a pool of 256 MiB at
  \<open>0x20000000\<close>: the three addresses returned by the allocations.
\<close>

definition vm_scenario :: "nat \<Rightarrow> (u32 \<times> u32 \<times> u32) option" where
  "vm_scenario MAX_REGIONS =
     (case VMPool_new 0x20000000 0x10000000 of
        None \<Rightarrow> None
      | Some v0 \<Rightarrow>
          (let (a1, v1) = allocate MAX_REGIONS v0 1;
               (a2, v2) = allocate MAX_REGIONS v1 0x2000
           in case release MAX_REGIONS v2 0x20002000 of
                None \<Rightarrow> None
              | Some (v3, r) \<Rightarrow>
                  (let (a3, v4) = allocate MAX_REGIONS v3 0x1000 in Some (a1, a2, a3))))"

text \<open>A size in bytes rounded up to a multiple of the page size, on unbounded numbers.\<close>

definition round_up_page :: "nat \<Rightarrow> nat" where
  "round_up_page n = ((n + 4095) div 4096) * 4096"

text \<open>The pool of the scenario after its first allocation.\<close>

definition pool_after_first :: VMPool where
  "pool_after_first =
     \<lparr>base_address = 0x20000000, size_p = 0x10000000,
      alloc = (\<lambda>_. \<lparr>base_address_r = 0, size_r = 0\<rparr>)
                (0 := \<lparr>base_address_r = 0x20000000, size_r = 0x2000\<rparr>,
                 1 := \<lparr>base_address_r = 0x20002000, size_r = 0x1000\<rparr>),
      free = (\<lambda>_. \<lparr>base_address_r = 0, size_r = 0\<rparr>)
                (0 := \<lparr>base_address_r = 0x20003000, size_r = 0x0FFFD000\<rparr>)\<rparr>"

text \<open>
  The two bits a frame state is stored as: the lower bit of the pair (even position in
  the byte) is set for \<open>Used\<close> and \<open>HoS\<close>, the upper bit (odd position) for \<open>HoS\<close> only.
\<close>

definition state_bit :: "FrameState \<Rightarrow> nat \<Rightarrow> bool" where
  "state_bit s m = (if even m then s \<noteq> Free else s = HoS)"

text \<open>
  The kernel frame pool of the specification's first scenario, built on bitmap memory
  holding the bytes \<open>mem\<close> beforehand; and memory that is all zero.
\<close>

definition kernel_pool :: "(nat \<Rightarrow> u8) \<Rightarrow> ContFramePool" where
  "kernel_pool mem = ContFramePool_new 512 512 0 mem"

definition zero_mem :: "nat \<Rightarrow> u8" where
  "zero_mem k = 0"

text \<open>
  The part of the pool invariants the release path relies on: the indices of all frames
  can be doubled without wrapping (a pool of 4 KiB frames within a 32-bit address space
  has at most \<open>2 ^ 20\<close> of them), and every \<open>Used\<close> frame follows a \<open>HoS\<close> or \<open>Used\<close>
  frame, that is, allocations are one \<open>HoS\<close> frame followed by \<open>Used\<close> frames.
\<close>

definition cfp_inv :: "ContFramePool \<Rightarrow> bool" where
  "cfp_inv p \<longleftrightarrow>
     unat (nframes p) \<le> 2 ^ 31 \<and>
     (\<forall>j < unat (nframes p). get_state p (of_nat j) = Used \<longrightarrow>
         0 < j \<and> get_state p (of_nat (j - 1)) \<noteq> Free)"

text \<open>
  States reached from the kernel pool: after \<open>get_frames(3)\<close> on zeroed memory, and after
  \<open>get_frames(511)\<close>, which hands out every frame up to the pool's last one.
\<close>

definition three_frames :: ContFramePool where
  "three_frames = snd (get_frames (kernel_pool zero_mem) 3)"

definition full_pool :: "(nat \<Rightarrow> u8) \<Rightarrow> ContFramePool" where
  "full_pool mem = snd (get_frames (kernel_pool mem) 511)"

text \<open>
  The process frame pool as the kernel sets it up: frames 1024 to 8191, its bitmap in
  frame 513, the frame the kernel pool hands out first.
\<close>

definition process_pool :: "(nat \<Rightarrow> u8) \<Rightarrow> ContFramePool" where
  "process_pool mem = ContFramePool_new 1024 7168 513 mem"



section \<open>Properties of the VM pool\<close>

lemma first_index_hit: "idx < bound \<Longrightarrow> test idx \<Longrightarrow> first_index test idx bound = Some idx"
  by (subst first_index.simps) simp

lemma first_index_skip:
  "idx < bound \<Longrightarrow> \<not> test idx \<Longrightarrow> first_index test idx bound = first_index test (Suc idx) bound"
  by (subst first_index.simps) simp

lemma first_index_none:
  "(\<And>i. idx \<le> i \<Longrightarrow> i < bound \<Longrightarrow> \<not> test i) \<Longrightarrow> first_index test idx bound = None"
proof (induction test idx bound rule: first_index.induct)
  case (1 test idx bound)
  show ?case
  proof (cases "idx < bound")
    case True
    then have nt: "\<not> test idx" using 1(2) [of idx] by simp
    have "first_index test (Suc idx) bound = None"
      using 1(1) [OF True nt] 1(2) by simp
    with True nt show ?thesis by (subst first_index.simps) simp
  next
    case False
    then show ?thesis by (subst first_index.simps) simp
  qed
qed

lemma free_pages_loop_one_page: "free_pages_loop 0x20002000 0x20003000 = Some [0x20002000]"
  by (simp add: free_pages_loop.simps PAGE_SIZE_def)

lemma pool_after_first_reached:
  "2 \<le> MAX_REGIONS \<Longrightarrow>
   map_option (\<lambda>v0. allocate MAX_REGIONS v0 1) (VMPool_new 0x20000000 0x10000000)
     = Some (0x20002000, pool_after_first)"
  by (simp add: VMPool_new_def allocate_def allocate_result_def PAGE_SIZE_def
        first_index_hit first_index_skip Let_def pool_after_first_def fun_upd_twist)

text \<open>
  Claim C3, as stated: the final \<open>allocate(0x1000)\<close> returns \<open>0x20002000\<close> again. It
  does not: the first-fit search finds \<open>free[0]\<close>, the remainder of the window, before
  the released region in \<open>free[1]\<close>.
\<close>

theorem vm_scenario_counterexample:
  "vm_scenario 512 \<noteq> Some (0x20002000, 0x20003000, 0x20002000)"
  by (simp add: vm_scenario_def VMPool_new_def allocate_def allocate_result_def release_def
        PAGE_SIZE_def first_index_hit first_index_skip Let_def free_pages_loop_one_page)

text \<open>
  Claim C3, amended: whenever the arrays have room for three regions, the three
  allocations return \<open>0x20002000\<close>, \<open>0x20003000\<close> and \<open>0x20005000\<close>.
\<close>

theorem vm_scenario_first_fit:
  "3 \<le> MAX_REGIONS \<Longrightarrow> vm_scenario MAX_REGIONS = Some (0x20002000, 0x20003000, 0x20005000)"
  by (simp add: vm_scenario_def VMPool_new_def allocate_def allocate_result_def release_def
        PAGE_SIZE_def first_index_hit first_index_skip Let_def free_pages_loop_one_page)

theorem vm_scenario_first_fit_witness:
  "(3 :: nat) \<le> 512 \<and> vm_scenario 512 = Some (0x20002000, 0x20003000, 0x20005000)"
  using vm_scenario_first_fit [of 512] by simp

lemma adj_size_unat:
  assumes "unat s + 4095 < 2 ^ 32"
  shows "unat (((s + PAGE_SIZE - 1) div PAGE_SIZE) * PAGE_SIZE :: u32) = round_up_page (unat s)"
proof -
  have a: "s + 4096 - 1 = s + 4095"
    by simp
  have b: "unat (s + 4095) = unat s + 4095"
    using assms unat_add_lem [of s "4095 :: u32"] by simp
  have c: "unat ((s + 4095) div 4096) = (unat s + 4095) div 4096"
    by (simp add: unat_div b)
  have "(unat s + 4095) div 4096 * 4096 \<le> unat s + 4095"
    by simp
  with assms have d: "unat ((s + 4095) div 4096) * unat (4096 :: u32) < 2 ^ LENGTH(32)"
    by (simp add: c)
  have "unat ((s + 4095) div 4096 * 4096) = unat ((s + 4095) div 4096) * unat (4096 :: u32)"
    using d by (simp only: unat_mult_lem)
  then have "unat ((s + 4095) div 4096 * 4096) = (unat s + 4095) div 4096 * 4096"
    by (simp only: c) simp
  then show ?thesis
    unfolding PAGE_SIZE_def round_up_page_def a .
qed

text \<open>
  Claim C9: on a pool that passed the constructor's assertion \<open>size > 2 * PAGE_SIZE\<close>,
  \<open>allocate(s)\<close> returns 0 and leaves the pool, hence both region arrays, as they were
  whenever \<open>s\<close> is 0, \<open>s\<close> exceeds \<open>size - 2 * PAGE_SIZE\<close>, or no slot of \<open>free[]\<close> is
  as large as \<open>s\<close> rounded up to whole pages; and a request of exactly
  \<open>size - 2 * PAGE_SIZE\<close> does not end in \<open>INVALID_SIZE\<close>.
\<close>

theorem allocate_rejects:
  assumes size: "2 * PAGE_SIZE < size_p v"
  shows "(s = 0 \<or> s > size_p v - 2 * PAGE_SIZE
           \<or> (\<forall>i < MAX_REGIONS. unat (size_r (free v i)) < round_up_page (unat s))
          \<longrightarrow> allocate MAX_REGIONS v s = (0, v))
       \<and> (s = size_p v - 2 * PAGE_SIZE
          \<longrightarrow> fst (allocate_result MAX_REGIONS v s) \<noteq> Inl INVALID_SIZE)"
proof (intro conjI impI)
  assume h: "s = 0 \<or> s > size_p v - 2 * PAGE_SIZE
           \<or> (\<forall>i < MAX_REGIONS. unat (size_r (free v i)) < round_up_page (unat s))"
  show "allocate MAX_REGIONS v s = (0, v)"
  proof (cases "s = 0 \<or> s > size_p v - 2 * PAGE_SIZE")
    case True
    then show ?thesis
      by (simp add: allocate_def allocate_result_def)
  next
    case False
    with h have nofit: "\<forall>i < MAX_REGIONS. unat (size_r (free v i)) < round_up_page (unat s)"
      by blast
    from size have "unat (size_p v - 2 * PAGE_SIZE) = unat (size_p v) - 8192"
      by (simp add: PAGE_SIZE_def unat_sub word_le_nat_alt word_less_nat_alt)
    moreover from False have "unat s \<le> unat (size_p v - 2 * PAGE_SIZE)"
      by (simp add: word_le_nat_alt not_less)
    moreover have "unat (size_p v) < 2 ^ 32"
      using unsigned_less [of "size_p v"] by simp
    ultimately have "unat s + 4095 < 2 ^ 32"
      by simp
    then have adj: "unat (((s + PAGE_SIZE - 1) div PAGE_SIZE) * PAGE_SIZE) = round_up_page (unat s)"
      by (rule adj_size_unat)
    have "first_index (\<lambda>idx. size_r (free v idx) \<ge> ((s + PAGE_SIZE - 1) div PAGE_SIZE) * PAGE_SIZE)
            0 MAX_REGIONS = None"
      using nofit by (intro first_index_none) (auto simp add: word_le_nat_alt adj not_le)
    with False show ?thesis
      by (simp add: allocate_def allocate_result_def Let_def)
  qed
next
  assume "s = size_p v - 2 * PAGE_SIZE"
  moreover from size have "size_p v - 2 * PAGE_SIZE \<noteq> 0"
    by simp
  ultimately show "fst (allocate_result MAX_REGIONS v s) \<noteq> Inl INVALID_SIZE"
    by (simp add: allocate_result_def Let_def split: option.splits)
qed

theorem allocate_rejects_witness:
  "2 * PAGE_SIZE < size_p pool_after_first
   \<and> (0x0FFFE000 :: u32) = size_p pool_after_first - 2 * PAGE_SIZE
   \<and> allocate 512 pool_after_first 0x0FFFE000 = (0, pool_after_first)
   \<and> fst (allocate_result 512 pool_after_first 0x0FFFE000) \<noteq> Inl INVALID_SIZE"
proof -
  have a: "2 * PAGE_SIZE < size_p pool_after_first"
    by (simp add: pool_after_first_def PAGE_SIZE_def)
  have b: "\<forall>i < 512. unat (size_r (free pool_after_first i)) < round_up_page (unat (0x0FFFE000 :: u32))"
    by (simp add: pool_after_first_def round_up_page_def)
  have c: "(0x0FFFE000 :: u32) = size_p pool_after_first - 2 * PAGE_SIZE"
    by (simp add: pool_after_first_def PAGE_SIZE_def)
  from allocate_rejects [OF a, of "0x0FFFE000" 512] b c show ?thesis
    using a by simp
qed

section \<open>Properties of the scheduler\<close>

text \<open>
  Claim C1 fails on the code when the thread is the head of a queue of two or more:
  the search starts with \<open>prev = queue.head\<close> and looks for the thread among the
  successors only. With threads 1 and 2 queued and thread 3 running, \<open>terminate\<close> of
  thread 1 returns with the queue as it was and nothing destroyed, whereas \<open>terminate\<close>
  of thread 2 unlinks and destroys it.
\<close>

theorem terminate_head_not_unlinked:
  "terminate two_queued (Some 1) = Some (two_queued\<lparr>interrupts_enabled := False\<rparr>, Some 1)
   \<and> queue_head two_queued = Some 1 \<and> queue_tail two_queued = Some 2
   \<and> thread_next two_queued 1 = Some 2 \<and> thread_next two_queued 2 = None
   \<and> current_thread two_queued = Some 3 \<and> deleted two_queued = []
   \<and> terminate two_queued (Some 2)
       = Some (two_queued\<lparr>thread_next := (thread_next two_queued)(1 := None),
                            queue_tail := Some 1, deleted := [2],
                            interrupts_enabled := True\<rparr>, None)"
  by (simp add: two_queued_def Scheduler_new_def enqueue_def terminate_def Let_def find_prev.simps)

text \<open>
  Claim C2 fails on the code once a dequeued thread is enqueued again: \<open>enqueue\<close> never
  resets the thread's \<open>next\<close>, so the stale link stays behind the new tail. After
  enqueue 1, enqueue 2, dequeue, enqueue 1, dequeue, dequeue the queue is empty, yet the
  fourth dequeue returns thread 2 where the FIFO queue returns \<open>NULL\<close>. Without a second
  enqueue of a thread, as in the specification's scenario with threads 2, 3 and 4, the
  code and the FIFO queue agree.
\<close>

theorem requeue_breaks_fifo:
  "run_ops (Scheduler_new 0) [Enqueue 1, Enqueue 2, Dequeue, Enqueue 1, Dequeue, Dequeue, Dequeue]
     = [Some 1, Some 2, Some 1, Some 2]
   \<and> fifo_ops [] [Enqueue 1, Enqueue 2, Dequeue, Enqueue 1, Dequeue, Dequeue, Dequeue]
     = [Some 1, Some 2, Some 1, None]
   \<and> run_ops (Scheduler_new 0) [Enqueue 2, Enqueue 3, Enqueue 4, Dequeue, Dequeue, Dequeue, Dequeue]
     = [Some 2, Some 3, Some 4, None]
   \<and> fifo_ops [] [Enqueue 2, Enqueue 3, Enqueue 4, Dequeue, Dequeue, Dequeue, Dequeue]
     = [Some 2, Some 3, Some 4, None]"
  by (simp add: Scheduler_new_def enqueue_def dequeue_def Let_def)

section \<open>Properties of the frame pool\<close>

subsection \<open>The bitmap encoding\<close>

lemma unat_dbl: "unat i < 2^31 \<Longrightarrow> unat (i * 2 :: u32) = 2 * unat i"
  by (simp add: unat_word_ariths)

lemma slot_eq: "unat i < 2^31 \<Longrightarrow> unat (drop_bit 3 (i * 2 :: u32)) = unat i div 4"
  by (simp add: drop_bit_eq_div unat_div unat_dbl)

lemma shift_eq: "unat i < 2^31 \<Longrightarrow> unat ((i * 2 :: u32) AND 7) = 2 * (unat i mod 4)"
proof -
  assume a: "unat i < 2^31"
  have "(i * 2 :: u32) AND 7 = take_bit 3 (i * 2)"
    using take_bit_eq_mask[of 3 "i * 2"] by (simp add: mask_eq_exp_minus_1)
  then have "unat ((i * 2 :: u32) AND 7) = take_bit 3 (unat (i * 2))"
    by (simp add: unsigned_take_bit_eq)
  then show ?thesis using a
    by (simp add: unat_dbl take_bit_eq_mod mult_mod_right)
qed

lemma three_mask: "(3 :: u8) = mask 2"
  by (simp add: mask_eq_exp_minus_1)

lemma bit_push3: "bit (push_bit sh (3 :: u8)) m \<longleftrightarrow> (m = sh \<or> m = Suc sh) \<and> m < 8"
  by (auto simp: three_mask bit_simps)

lemma bit_push1: "bit (2 ^ sh :: u8) m \<longleftrightarrow> m = sh \<and> m < 8"
  by (auto simp: bit_simps)

lemma byte_decode:
  fixes b :: u8
  shows "(b AND push_bit sh 1 = 0) = (\<not> bit b sh)"
    and "(b AND push_bit 1 (push_bit sh 1) \<noteq> 0) = bit b (Suc sh)"
proof -
  show "(b AND push_bit sh 1 = 0) = (\<not> bit b sh)"
    by (simp only: bit_iff_and_push_bit_not_eq_0 [of b sh] not_not)
  have "push_bit 1 (push_bit sh (1 :: u8)) = push_bit (Suc sh) 1"
    by (simp only: push_bit_push_bit) simp
  then show "(b AND push_bit 1 (push_bit sh 1) \<noteq> 0) = bit b (Suc sh)"
    by (simp only: bit_iff_and_push_bit_not_eq_0 [of b "Suc sh"])
qed

lemma get_state_bits:
  assumes "unat i < 2^31"
  shows "get_state p i =
    (if \<not> bit (bitmap p (unat i div 4)) (2 * (unat i mod 4)) then Free
     else if bit (bitmap p (unat i div 4)) (Suc (2 * (unat i mod 4))) then HoS else Used)"
  unfolding get_state_def Let_def slot_eq [OF assms] shift_eq [OF assms] byte_decode
  by (rule refl)

lemma bit_u8_less: "bit (b :: u8) m \<Longrightarrow> m < 8"
  using bit_imp_le_length [of b m] by simp

lemma byte_update_bit:
  fixes b :: u8
  assumes "sh < 7"
  shows "bit (b AND NOT (push_bit sh 3)) m \<longleftrightarrow> bit b m \<and> m \<noteq> sh \<and> m \<noteq> Suc sh"
    and "bit (b AND NOT (push_bit sh 3) OR push_bit sh 1) m \<longleftrightarrow>
           (bit b m \<and> m \<noteq> sh \<and> m \<noteq> Suc sh) \<or> m = sh"
    and "bit (b AND NOT (push_bit sh 3) OR push_bit sh 3) m \<longleftrightarrow>
           (bit b m \<and> m \<noteq> sh \<and> m \<noteq> Suc sh) \<or> m = sh \<or> m = Suc sh"
  using assms
  by (auto simp add: bit_and_iff bit_or_iff bit_not_iff bit_push3 bit_push1 dest: bit_u8_less)

lemma bitmap_set_state:
  assumes "unat i < 2^31"
  shows "bit (bitmap (set_state p i s) k) m \<longleftrightarrow>
    (if k = unat i div 4 \<and> m div 2 = unat i mod 4 then state_bit s m else bit (bitmap p k) m)"
proof -
  define sh where "sh = 2 * (unat i mod 4)"
  have sh7: "sh < 7" and shev: "even sh"
    unfolding sh_def by arith+
  have cases: "m div 2 = unat i mod 4 \<longleftrightarrow> m = sh \<or> m = Suc sh"
    unfolding sh_def by arith
  have upd: "bitmap (set_state p i s) k =
     (if k = unat i div 4 then
        (case s of Free \<Rightarrow> bitmap p k AND NOT (push_bit sh 3)
         | Used \<Rightarrow> bitmap p k AND NOT (push_bit sh 3) OR push_bit sh 1
         | HoS \<Rightarrow> bitmap p k AND NOT (push_bit sh 3) OR push_bit sh 3)
      else bitmap p k)"
    unfolding set_state_def Let_def slot_eq [OF assms] shift_eq [OF assms] sh_def
    by (cases s) simp_all
  show ?thesis
  proof (cases "k = unat i div 4")
    case False
    then show ?thesis by (simp add: upd)
  next
    case True
    with upd have u: "bitmap (set_state p i s) k =
        (case s of Free \<Rightarrow> bitmap p k AND NOT (push_bit sh 3)
         | Used \<Rightarrow> bitmap p k AND NOT (push_bit sh 3) OR push_bit sh 1
         | HoS \<Rightarrow> bitmap p k AND NOT (push_bit sh 3) OR push_bit sh 3)"
      by simp
    show ?thesis
      unfolding u using shev True
      by (cases s) (auto simp add: cases byte_update_bit [OF sh7] state_bit_def simp del: push_bit_of_1)
  qed
qed

lemma get_set_state:
  assumes "unat i < 2^31" "unat j < 2^31"
  shows "get_state (set_state p i s) j = (if i = j then s else get_state p j)"
proof (cases "i = j")
  case True
  then show ?thesis
    by (cases s) (simp_all add: get_state_bits [OF assms(2)] bitmap_set_state [OF assms(2)] state_bit_def)
next
  case False
  then have "unat i \<noteq> unat j" by (simp add: word_unat_eq_iff)
  then have "unat j div 4 = unat i div 4 \<Longrightarrow> unat j mod 4 \<noteq> unat i mod 4"
    using div_mult_mod_eq [of "unat i" 4] div_mult_mod_eq [of "unat j" 4] by auto
  then have "\<not> (unat j div 4 = unat i div 4 \<and> (2 * (unat j mod 4)) div 2 = unat i mod 4)"
       "\<not> (unat j div 4 = unat i div 4 \<and> (Suc (2 * (unat j mod 4))) div 2 = unat i mod 4)"
    by auto
  with False show ?thesis
    by (simp only: get_state_bits [OF assms(2)] bitmap_set_state [OF assms(1)] if_False)
qed


lemma fields_set_state [simp]:
  "nframes (set_state p i st) = nframes p"
  "nFreeFrames (set_state p i st) = nFreeFrames p"
  "base_frame_no (set_state p i st) = base_frame_no p"
  "info_frame_no (set_state p i st) = info_frame_no p"
  "bitmap_ptr (set_state p i st) = bitmap_ptr p"
  by (simp_all add: set_state_def Let_def)

lemma fields_set_loop [simp]:
  "nframes (set_loop p off lo hi st) = nframes p \<and>
   nFreeFrames (set_loop p off lo hi st) = nFreeFrames p \<and>
   base_frame_no (set_loop p off lo hi st) = base_frame_no p \<and>
   info_frame_no (set_loop p off lo hi st) = info_frame_no p \<and>
   bitmap_ptr (set_loop p off lo hi st) = bitmap_ptr p"
proof (induction p off lo hi st rule: set_loop.induct)
  case (1 p off fno hi st)
  show ?case
  proof (cases "fno < hi")
    case True
    then have "set_loop p off fno hi st = set_loop (set_state p (of_nat fno - off) st) off (Suc fno) hi st"
      by (subst set_loop.simps) simp
    with 1 [OF True] show ?thesis by simp
  next
    case False
    then have "set_loop p off fno hi st = p"
      by (subst set_loop.simps) simp
    then show ?thesis by simp
  qed
qed

lemma unat_of_nat31: "j < 2 ^ 31 \<Longrightarrow> unat (of_nat j :: u32) = j"
  by (simp add: unat_of_nat)

lemma divmod4: "(k = f div 4 \<and> r = f mod 4) \<longleftrightarrow> (4 * k + r = f \<and> r < (4::nat))"
  by auto

lemma half_less4: "m div 2 < (4::nat) \<longleftrightarrow> m < 8"
  by arith

lemma set_loop_bits:
  assumes "hi \<le> 2 ^ 31"
  shows "bit (bitmap (set_loop p 0 lo hi s) k) m \<longleftrightarrow>
    (if lo \<le> 4 * k + m div 2 \<and> 4 * k + m div 2 < hi \<and> m < 8 then state_bit s m
     else bit (bitmap p k) m)"
  using assms
proof (induction p "0 :: u32" lo hi s rule: set_loop.induct)
  case (1 p fno hi st)
  show ?case
  proof (cases "fno < hi")
    case False
    then show ?thesis by (subst set_loop.simps) auto
  next
    case True
    with 1(2) have f31: "unat (of_nat fno :: u32) < 2 ^ 31" and uf: "unat (of_nat fno :: u32) = fno"
      by (simp_all add: unat_of_nat31)
    define X where "X = 4 * k + m div 2"
    have here: "k = fno div 4 \<and> m div 2 = fno mod 4 \<longleftrightarrow> X = fno \<and> m < 8"
      unfolding X_def by (simp only: divmod4 half_less4)
    have unfold: "set_loop p 0 fno hi st = set_loop (set_state p (of_nat fno) st) 0 (Suc fno) hi st"
      using True by (subst set_loop.simps) simp
    have ih: "bit (bitmap (set_loop (set_state p (of_nat fno - 0) st) 0 (Suc fno) hi st) k) m =
       (if Suc fno \<le> X \<and> X < hi \<and> m < 8 then state_bit st m
        else bit (bitmap (set_state p (of_nat fno - 0) st) k) m)"
      unfolding X_def by (rule 1(1) [OF True 1(2)])
    have step: "bit (bitmap (set_state p (of_nat fno) st) k) m =
       (if X = fno \<and> m < 8 then state_bit st m else bit (bitmap p k) m)"
      by (simp only: bitmap_set_state [OF f31] uf here)
    show ?thesis
    proof (cases "X = fno \<and> m < 8")
      case True
      with \<open>fno < hi\<close> ih step show ?thesis
        unfolding unfold X_def [symmetric] by simp
    next
      case False
      then have "(Suc fno \<le> X \<and> X < hi \<and> m < 8) = (fno \<le> X \<and> X < hi \<and> m < 8)"
        by auto
      with False ih step show ?thesis
        unfolding unfold X_def [symmetric] by auto
    qed
  qed
qed

subsection \<open>Loops\<close>

lemma get_state_set_loop:
  assumes "hi \<le> 2 ^ 31" "unat j < 2 ^ 31"
  shows "get_state (set_loop p 0 lo hi s) j =
           (if lo \<le> unat j \<and> unat j < hi then s else get_state p j)"
proof -
  define r where "r = unat j mod 4"
  have r4: "r < 4" unfolding r_def by simp
  have idx: "4 * (unat j div 4) + (2 * r) div 2 = unat j"
            "4 * (unat j div 4) + (Suc (2 * r)) div 2 = unat j"
    unfolding r_def by simp_all
  have m8: "2 * r < 8" "Suc (2 * r) < 8"
    using r4 by simp_all
  show ?thesis
    unfolding get_state_bits [OF assms(2)] r_def [symmetric]
      set_loop_bits [OF assms(1)] idx
    using m8 by (cases s) (simp_all add: state_bit_def)
qed

lemma needed_info_frames_512: "needed_info_frames 512 = 1"
  by (simp add: needed_info_frames_def INFO_FRAME_CAPACITY_def)

lemma set_loop_one: "set_loop p off lo (Suc lo) st = set_state p (of_nat lo - off) st"
  by (subst set_loop.simps, subst set_loop.simps) simp

lemma get_state_nFreeFrames_update [simp]:
  "get_state (p\<lparr>nFreeFrames := x\<rparr>) i = get_state p i"
  by (simp add: get_state_def Let_def)

lemma kernel_pool_eq:
  "kernel_pool mem =
     set_state ((set_state (set_loop \<lparr>base_frame_no = 512, nframes = 512, nFreeFrames = 512,
         info_frame_no = 0, bitmap_ptr = 0x200000, bitmap = mem\<rparr> 0 0 512 Free) 0 Used)
         \<lparr>nFreeFrames := 511\<rparr>) 0 HoS"
proof -
  have "set_loop p 0 0 (Suc 0) Used = set_state p 0 Used" for p
    using set_loop_one [of p 0 0 Used] by simp
  then show ?thesis
    by (simp add: kernel_pool_def ContFramePool_new_def needed_info_frames_512 Let_def FRAME_SIZE_def)
qed

lemma kernel_pool_fields:
  "nframes (kernel_pool mem) = 512" "nFreeFrames (kernel_pool mem) = 511"
  "base_frame_no (kernel_pool mem) = 512"
  by (simp_all add: kernel_pool_eq)

lemma kernel_pool_states:
  assumes "unat j < 512"
  shows "get_state (kernel_pool mem) j = (if j = 0 then HoS else Free)"
proof -
  from assms have j31: "unat j < 2 ^ 31" by simp
  have z31: "unat (0 :: u32) < 2 ^ 31" by simp
  show ?thesis
    using assms
    by (simp add: kernel_pool_eq get_set_state [OF z31 j31] get_state_set_loop [OF _ j31])
qed

lemma kernel_pool_first_byte: "bitmap (kernel_pool mem) 0 = 3"
proof (rule bit_word_eqI)
  fix m assume "m < LENGTH(8)"
  then have m8: "m < 8" by simp
  have z31: "unat (0 :: u32) < 2 ^ 31" by simp
  have d: "m div 2 = 0 \<longleftrightarrow> m < 2" by arith
  have e: "m div 2 < 512" using m8 by simp
  have "bit (bitmap (kernel_pool mem) 0) m \<longleftrightarrow> m < 2"
    using m8 e
    by (simp add: kernel_pool_eq bitmap_set_state [OF z31] set_loop_bits d state_bit_def)
  then show "bit (bitmap (kernel_pool mem) 0) m = bit (3 :: u8) m"
    using m8 by (simp add: three_mask bit_mask_iff)
qed


lemma set_state_nFreeFrames_update [simp]:
  "set_state (p\<lparr>nFreeFrames := x\<rparr>) i s = (set_state p i s)\<lparr>nFreeFrames := x\<rparr>"
  by (simp add: set_state_def Let_def)

lemma set_loop_nFreeFrames_update [simp]:
  "set_loop (p\<lparr>nFreeFrames := x\<rparr>) off lo hi s = (set_loop p off lo hi s)\<lparr>nFreeFrames := x\<rparr>"
proof (induction p off lo hi s rule: set_loop.induct)
  case (1 p off fno hi st)
  show ?case
  proof (cases "fno < hi")
    case True
    with 1 [OF True] show ?thesis
      by (subst (1 2) set_loop.simps) simp
  next
    case False
    then show ?thesis
      by (subst (1 2) set_loop.simps) simp
  qed
qed

lemma set_loop_empty: "hi \<le> lo \<Longrightarrow> set_loop p off lo hi s = p"
  by (subst set_loop.simps) simp

lemma set_loop_first:
  "lo < hi \<Longrightarrow> set_loop p off lo hi s = set_loop (set_state p (of_nat lo - off) s) off (Suc lo) hi s"
  by (subst set_loop.simps) simp

lemma of_nat_Suc_word: "(of_nat a :: u32) + 1 = of_nat (Suc a)"
  by simp

lemma release_loop_run:
  assumes "a < b" "b \<le> unat (nframes p)" "unat (nframes p) \<le> 2 ^ 31"
    and "\<And>j. a < j \<Longrightarrow> j < b \<Longrightarrow> get_state p (of_nat j) = Used"
    and "b = unat (nframes p) \<or> get_state p (of_nat b) \<noteq> Used"
  shows "release_loop p (of_nat a) =
           ((set_loop p 0 a b Free)\<lparr>nFreeFrames := nFreeFrames p + of_nat (b - a)\<rparr>,
            map of_nat [Suc a..<Suc b])"
  using assms
proof (induction "b - a" arbitrary: a p)
  case 0
  then show ?case by simp
next
  case (Suc d)
  define p' where "p' = (set_state p (of_nat a) Free)\<lparr>nFreeFrames := nFreeFrames p + 1\<rparr>"
  have a31: "unat (of_nat a :: u32) < 2 ^ 31" and ua: "unat (of_nat a :: u32) = a"
    using Suc.prems(1,2,3) by (simp_all add: unat_of_nat31)
  have nf: "nframes p' = nframes p" by (simp add: p'_def)
  have e: "(of_nat (Suc a) :: u32) = of_nat a + 1" by simp
  have unfold: "release_loop p (of_nat a) =
      (if get_state p' (of_nat (Suc a)) = Used \<and> of_nat (Suc a) < nframes p'
       then (let (q, reads) = release_loop p' (of_nat (Suc a)) in (q, of_nat (Suc a) # reads))
       else (p', [of_nat (Suc a)]))"
    unfolding e p'_def
    by (simp only: release_loop.simps [of p "of_nat a"] Let_def)
  have other: "get_state p' (of_nat j) = get_state p (of_nat j)" if "a < j" "j < 2 ^ 31" for j
  proof -
    from that have "unat (of_nat j :: u32) = j" by (simp add: unat_of_nat31)
    with that ua have "(of_nat a :: u32) \<noteq> of_nat j" by auto
    moreover from that have "unat (of_nat j :: u32) < 2 ^ 31" by (simp add: unat_of_nat31)
    ultimately show ?thesis
      by (simp add: p'_def get_set_state [OF a31])
  qed
  show ?case
  proof (cases "Suc a = b")
    case True
    have stop: "\<not> (get_state p' (of_nat (Suc a)) = Used \<and> of_nat (Suc a) < nframes p')"
    proof (cases "b = unat (nframes p)")
      case True
      with \<open>Suc a = b\<close> have "(of_nat (Suc a) :: u32) = nframes p" by simp
      then show ?thesis by (simp add: nf)
    next
      case False
      with Suc.prems(5) have ne: "get_state p (of_nat b) \<noteq> Used" by simp
      from False Suc.prems(2,3) have "b < 2 ^ 31" by simp
      with other [of b] \<open>Suc a = b\<close> ne show ?thesis by auto
    qed
    from stop have "release_loop p (of_nat a) = (p', [of_nat (Suc a)])"
      unfolding unfold by (rule if_not_P)
    moreover have "set_loop p 0 a b Free = set_state p (of_nat a) Free"
      using True set_loop_one [of p 0 a Free] by simp
    moreover have "b - a = Suc 0" "[Suc a..<Suc b] = [Suc a]"
      using True by auto
    ultimately show ?thesis
      by (simp add: p'_def)
  next
    case False
    with Suc.prems(1) have lt: "Suc a < b" by simp
    with Suc.prems(2,3) have s31: "Suc a < 2 ^ 31" by simp
    have cont: "get_state p' (of_nat (Suc a)) = Used \<and> of_nat (Suc a) < nframes p'"
    proof
      show "get_state p' (of_nat (Suc a)) = Used"
        using other [of "Suc a"] s31 Suc.prems(4) [of "Suc a"] lt by simp
      show "of_nat (Suc a) < nframes p'"
        using lt Suc.prems(2) s31
        by (simp only: nf word_less_nat_alt unat_of_nat31 [OF s31])
    qed
    have ih: "release_loop p' (of_nat (Suc a)) =
           ((set_loop p' 0 (Suc a) b Free)\<lparr>nFreeFrames := nFreeFrames p' + of_nat (b - Suc a)\<rparr>,
            map of_nat [Suc (Suc a)..<Suc b])"
    proof (rule Suc.hyps(1))
      show "d = b - Suc a" using Suc.hyps(2) by simp
      show "Suc a < b" by (rule lt)
      show "b \<le> unat (nframes p')" using Suc.prems(2) by (simp add: nf)
      show "unat (nframes p') \<le> 2 ^ 31" using Suc.prems(3) by (simp add: nf)
      show "get_state p' (of_nat j) = Used" if "Suc a < j" "j < b" for j
        using that other [of j] Suc.prems(2,3) Suc.prems(4) [of j] by simp
      show "b = unat (nframes p') \<or> get_state p' (of_nat b) \<noteq> Used"
      proof (cases "b = unat (nframes p)")
        case True
        then show ?thesis by (simp add: nf)
      next
        case False
        with Suc.prems(2,3) have "b < 2 ^ 31" by simp
        with other [of b] Suc.prems(1,5) False show ?thesis by simp
      qed
    qed
    have reads: "of_nat (Suc a) # map of_nat [Suc (Suc a)..<Suc b] = (map of_nat [Suc a..<Suc b] :: u32 list)"
      using lt by (simp add: upt_conv_Cons)
    have cnt: "nFreeFrames p' + of_nat (b - Suc a) = nFreeFrames p + (of_nat (b - a) :: u32)"
    proof -
      have "b - a = Suc (b - Suc a)" using lt by simp
      then have "(of_nat (b - a) :: u32) = 1 + of_nat (b - Suc a)" by simp
      then show ?thesis by (simp add: p'_def)
    qed
    have pool: "set_loop p' 0 (Suc a) b Free = (set_loop p 0 a b Free)\<lparr>nFreeFrames := nFreeFrames p + 1\<rparr>"
      using Suc.prems(1) by (simp add: p'_def set_loop_first [where lo = a and hi = b])
    from cont have "release_loop p (of_nat a) =
        (let (q, reads) = release_loop p' (of_nat (Suc a)) in (q, of_nat (Suc a) # reads))"
      unfolding unfold by (rule if_P)
    also have "\<dots> = ((set_loop p 0 a b Free)\<lparr>nFreeFrames := nFreeFrames p + 1\<rparr>
         \<lparr>nFreeFrames := nFreeFrames p + of_nat (b - a)\<rparr>, map of_nat [Suc a..<Suc b])"
      unfolding ih pool cnt reads [symmetric] by (simp only: Let_def prod.case)
    finally show ?thesis
      by simp
  qed
qed


lemma scan_skip:
  assumes "fno < unat (nframes p)" "get_state p (of_nat fno) \<noteq> Free" "n \<noteq> 0"
  shows "scan p n fno run = scan p n (Suc fno) 0"
  using assms by (subst scan.simps) simp

lemma scan_zero:
  assumes "fno < unat (nframes p)" "get_state p (of_nat fno) \<noteq> Free"
  shows "scan p 0 fno run = (Suc fno, 0)"
  using assms by (subst scan.simps) simp

lemma scan_run:
  assumes "run < n" "fno + (n - run) \<le> unat (nframes p)" "run \<le> fno"
    and "\<And>j. fno \<le> j \<Longrightarrow> j < fno + (n - run) \<Longrightarrow> get_state p (of_nat j) = Free"
  shows "scan p n fno run = (fno - run, n)"
  using assms
proof (induction "n - run" arbitrary: fno run)
  case 0
  then show ?case by simp
next
  case (Suc d)
  have lt: "fno < unat (nframes p)" using Suc.prems Suc.hyps(2) by simp
  have fr: "get_state p (of_nat fno) = Free" using Suc.prems(4) [of fno] Suc.hyps(2) by simp
  show ?case
  proof (cases "Suc run = n")
    case True
    with lt fr Suc.prems(3) show ?thesis
      by (subst scan.simps) (simp add: Let_def)
  next
    case False
    have "scan p n (Suc fno) (Suc run) = (Suc fno - Suc run, n)"
    proof (rule Suc.hyps(1))
      show "d = n - Suc run" using Suc.hyps(2) by simp
      show "Suc run < n" using False Suc.prems(1) by simp
      show "Suc fno + (n - Suc run) \<le> unat (nframes p)" using Suc.prems(2) Suc.hyps(2) by simp
      show "Suc run \<le> Suc fno" using Suc.prems(3) by simp
      show "\<And>j. Suc fno \<le> j \<Longrightarrow> j < Suc fno + (n - Suc run) \<Longrightarrow> get_state p (of_nat j) = Free"
        using Suc.prems(4) Suc.hyps(2) by simp
    qed
    with lt fr False show ?thesis
      by (subst scan.simps) (simp add: Let_def)
  qed
qed

subsection \<open>Allocation and release\<close>

lemma scan_found:
  assumes "scan p n fno run = (start, n)" "0 < n" "run \<le> fno" "run < n"
    and "\<And>j. fno - run \<le> j \<Longrightarrow> j < fno \<Longrightarrow> get_state p (of_nat j) = Free"
  shows "start + n \<le> unat (nframes p) \<and>
         (\<forall>j. start \<le> j \<and> j < start + n \<longrightarrow> get_state p (of_nat j) = Free)"
  using assms
proof (induction p n fno run rule: scan.induct)
  case (1 p n fno run)
  show ?case
  proof (cases "fno < unat (nframes p)")
    case False
    with 1(2) have "(0, run) = (start, n)"
      by (subst (asm) scan.simps) simp
    with 1(5) show ?thesis by simp
  next
    case True
    define run' where "run' = (if get_state p (of_nat fno) = Free then Suc run else 0)"
    have unfold: "scan p n fno run =
        (if run' = n then (Suc fno - run', run') else scan p n (Suc fno) run')"
      using True by (subst scan.simps) (simp add: run'_def Let_def)
    show ?thesis
    proof (cases "run' = n")
      case True
      with 1(2) have st: "start = Suc fno - n"
        unfolding unfold by simp
      from True 1(3) have fr: "get_state p (of_nat fno) = Free" and rn: "n = Suc run"
        by (auto simp add: run'_def split: if_splits)
      have "get_state p (of_nat j) = Free" if "start \<le> j" "j < start + n" for j
      proof (cases "j = fno")
        case True
        with fr show ?thesis by simp
      next
        case False
        with that st rn 1(4) have "fno - run \<le> j" "j < fno" by simp_all
        then show ?thesis by (rule 1(6))
      qed
      moreover have "start + n \<le> unat (nframes p)"
        using st rn 1(4) \<open>fno < unat (nframes p)\<close> by simp
      ultimately show ?thesis by simp
    next
      case False
      with 1(2) have rec: "scan p n (Suc fno) run' = (start, n)"
        unfolding unfold by simp
      show ?thesis
      proof (rule 1(1) [OF True run'_def False rec 1(3)])
        show "run' \<le> Suc fno" using 1(4) by (simp add: run'_def)
        show "run' < n" using 1(3,5) False by (auto simp add: run'_def split: if_splits)
        show "get_state p (of_nat j) = Free" if "Suc fno - run' \<le> j" "j < Suc fno" for j
        proof (cases "j = fno")
          case True
          with that show ?thesis by (auto simp add: run'_def split: if_splits)
        next
          case False
          with that 1(4) have "fno - run \<le> j" "j < fno"
            by (auto simp add: run'_def split: if_splits)
          then show ?thesis by (rule 1(6))
        qed
      qed
    qed
  qed
qed

lemma get_frames_success:
  assumes "get_frames p n = (r, p')" "r \<noteq> 0" "n \<noteq> 0"
  shows "\<exists>start. start + unat n \<le> unat (nframes p)
           \<and> (\<forall>j. start \<le> j \<and> j < start + unat n \<longrightarrow> get_state p (of_nat j) = Free)
           \<and> r = of_nat start + base_frame_no p
           \<and> p' = (set_state (set_loop p 0 start (start + unat n) Used) (of_nat start) HoS)
                    \<lparr>nFreeFrames := nFreeFrames p - n\<rparr>"
proof -
  obtain start fr where sc: "scan p (unat n) 0 0 = (start, fr)"
    by (cases "scan p (unat n) 0 0")
  from assms(1,2) have le: "\<not> n > nFreeFrames p"
    by (auto simp add: get_frames_def split: if_splits)
  from assms(1,2) le sc have fr: "fr = unat n"
    by (auto simp add: get_frames_def Let_def split: if_splits)
  from assms(3) have n0: "0 < unat n"
    by (simp add: unat_gt_0)
  have found: "start + unat n \<le> unat (nframes p) \<and>
     (\<forall>j. start \<le> j \<and> j < start + unat n \<longrightarrow> get_state p (of_nat j) = Free)"
    using sc n0 unfolding fr by (rule scan_found) (simp_all add: n0)
  have "unat (nframes p) < 2 ^ 32"
    using unsigned_less [of "nframes p"] by simp
  with found have "start + unat n < 2 ^ 32" by simp
  then have "unat (of_nat start + n :: u32) = start + unat n"
    by (simp add: unat_word_ariths unat_of_nat)
  with assms(1) le sc fr have
    "r = of_nat start + base_frame_no p"
    "p' = (set_state (set_loop p 0 start (start + unat n) Used) (of_nat start) HoS)
                    \<lparr>nFreeFrames := nFreeFrames p - n\<rparr>"
    by (simp_all add: get_frames_def Let_def)
  with found show ?thesis by blast
qed


lemma release_frames_skip:
  assumes "\<forall>c \<in> set before. \<not> (f - base_frame_no c < nframes c)"
    and "f - base_frame_no c < nframes c"
  shows "release_frames (before @ c # after) f
           = before @ release_frames_pool c (f - base_frame_no c) # after"
  using assms by (induction before) (simp_all add: Let_def)

lemma release_after_get_frames:
  assumes inv: "cfp_inv p" and n: "n \<noteq> 0" and gf: "get_frames p n = (r, p')" and r: "r \<noteq> 0"
  shows "r - base_frame_no p' < nframes p'
       \<and> nFreeFrames (release_frames_pool p' (r - base_frame_no p')) = nFreeFrames p"
proof -
  from get_frames_success [OF gf r n] obtain start where
    fit: "start + unat n \<le> unat (nframes p)"
    and free: "\<And>j. start \<le> j \<Longrightarrow> j < start + unat n \<Longrightarrow> get_state p (of_nat j) = Free"
    and r_eq: "r = of_nat start + base_frame_no p"
    and p'_eq: "p' = (set_state (set_loop p 0 start (start + unat n) Used) (of_nat start) HoS)
                    \<lparr>nFreeFrames := nFreeFrames p - n\<rparr>"
    by blast
  from inv have n31: "unat (nframes p) \<le> 2 ^ 31"
    and shape: "\<And>j. j < unat (nframes p) \<Longrightarrow> get_state p (of_nat j) = Used \<Longrightarrow>
                  0 < j \<and> get_state p (of_nat (j - 1)) \<noteq> Free"
    by (simp_all add: cfp_inv_def)
  from n have n0: "0 < unat n" by (simp add: unat_gt_0)
  define b where "b = start + unat n"
  have hi31: "b \<le> 2 ^ 31" using fit n31 by (simp add: b_def)
  have s31: "start < 2 ^ 31" using fit n31 n0 by simp
  have us: "unat (of_nat start :: u32) = start" "unat (of_nat start :: u32) < 2 ^ 31"
    using s31 by (simp_all add: unat_of_nat31)
  have nf: "nframes p' = nframes p" and bs: "base_frame_no p' = base_frame_no p"
    and fr: "nFreeFrames p' = nFreeFrames p - n"
    by (simp_all add: p'_eq)
  have st: "get_state p' (of_nat j) =
      (if j = start then HoS else if start \<le> j \<and> j < b then Used else get_state p (of_nat j))"
    if "j < 2 ^ 31" for j
  proof -
    from that have uj: "unat (of_nat j :: u32) = j" "unat (of_nat j :: u32) < 2 ^ 31"
      by (simp_all add: unat_of_nat31)
    have "(of_nat start :: u32) = of_nat j \<longleftrightarrow> start = j"
    proof
      assume "(of_nat start :: u32) = of_nat j"
      then have "unat (of_nat start :: u32) = unat (of_nat j :: u32)" by simp
      then show "start = j" by (simp only: us(1) uj(1))
    next
      assume "start = j"
      then show "(of_nat start :: u32) = of_nat j" by simp
    qed
    then show ?thesis
      by (auto simp add: p'_eq get_set_state [OF us(2) uj(2)] get_state_set_loop [OF hi31 uj(2)] uj(1)
            b_def [symmetric])
  qed
  have idx: "r - base_frame_no p' = of_nat start"
    by (simp add: r_eq bs)
  have lt: "(of_nat start :: u32) < nframes p'"
    using fit n0 by (simp add: nf word_less_nat_alt us(1))
  have hos: "get_state p' (of_nat start) = HoS"
    using st [OF s31] by simp
  have run: "release_loop p' (of_nat start) =
           ((set_loop p' 0 start b Free)\<lparr>nFreeFrames := nFreeFrames p' + of_nat (b - start)\<rparr>,
            map of_nat [Suc start..<Suc b])"
  proof (rule release_loop_run)
    show "start < b" using n0 by (simp add: b_def)
    show "b \<le> unat (nframes p')" using fit by (simp add: nf b_def)
    show "unat (nframes p') \<le> 2 ^ 31" using n31 by (simp add: nf)
    show "get_state p' (of_nat j) = Used" if "start < j" "j < b" for j
      using that st [of j] hi31 by simp
    show "b = unat (nframes p') \<or> get_state p' (of_nat b) \<noteq> Used"
    proof (cases "b = unat (nframes p)")
      case True
      then show ?thesis by (simp add: nf)
    next
      case False
      with fit have bl: "b < unat (nframes p)" by (simp add: b_def)
      with n31 have b31: "b < 2 ^ 31" by simp
      have "get_state p (of_nat b) \<noteq> Used"
      proof
        assume "get_state p (of_nat b) = Used"
        from shape [OF bl this] have "get_state p (of_nat (b - 1)) \<noteq> Free" by (rule conjunct2)
        moreover have "get_state p (of_nat (b - 1)) = Free"
          using n0 by (intro free) (simp_all add: b_def)
        ultimately show False by simp
      qed
      moreover have "get_state p' (of_nat b) = get_state p (of_nat b)"
        using st [OF b31] n0 by (simp add: b_def)
      ultimately show ?thesis by simp
    qed
  qed
  have "nFreeFrames (release_frames_pool p' (of_nat start)) = nFreeFrames p' + of_nat (b - start)"
    by (simp add: release_frames_pool_def hos run)
  also have "\<dots> = nFreeFrames p"
    by (simp add: fr b_def)
  finally show ?thesis
    using lt by (simp add: idx)
qed


lemma kernel_pool_get_frames:
  assumes "n \<noteq> 0" "unat n \<le> 511"
  shows "get_frames (kernel_pool mem) n =
           (513, (set_state (set_loop (kernel_pool mem) 0 1 (1 + unat n) Used) 1 HoS)
                   \<lparr>nFreeFrames := 511 - n\<rparr>)"
proof -
  from assms(1) have n0: "0 < unat n" by (simp add: unat_gt_0)
  have le: "\<not> n > nFreeFrames (kernel_pool mem)"
    using assms(2) by (simp add: kernel_pool_fields word_less_nat_alt)
  have "scan (kernel_pool mem) (unat n) 0 0 = scan (kernel_pool mem) (unat n) (Suc 0) 0"
    using n0 by (intro scan_skip) (simp_all add: kernel_pool_fields kernel_pool_states)
  also have "\<dots> = (Suc 0 - 0, unat n)"
  proof (rule scan_run)
    show "0 < unat n" by (rule n0)
    show "Suc 0 + (unat n - 0) \<le> unat (nframes (kernel_pool mem))"
      using assms(2) by (simp add: kernel_pool_fields)
    show "(0 :: nat) \<le> Suc 0" by simp
    show "get_state (kernel_pool mem) (of_nat j) = Free" if "Suc 0 \<le> j" "j < Suc 0 + (unat n - 0)" for j
    proof -
      from that assms(2) have "j < 512" "j \<noteq> 0" by simp_all
      then have uj: "unat (of_nat j :: u32) = j"
        by (simp add: unat_of_nat)
      with \<open>j < 512\<close> \<open>j \<noteq> 0\<close> have "unat (of_nat j :: u32) < 512" "(of_nat j :: u32) \<noteq> 0"
        by auto
      then show ?thesis by (simp add: kernel_pool_states)
    qed
  qed
  finally have sc: "scan (kernel_pool mem) (unat n) 0 0 = (1, unat n)" by simp
  have "unat (1 + n) = 1 + unat n"
    using assms(2) by (simp add: unat_word_ariths)
  with le sc show ?thesis
    by (simp add: get_frames_def Let_def kernel_pool_fields)
qed

lemma set_loop_shift:
  assumes "unat off \<le> lo"
  shows "set_loop p off lo hi s = set_loop p 0 (lo - unat off) (hi - unat off) s"
  using assms
proof (induction p off lo hi s rule: set_loop.induct)
  case (1 p off fno hi st)
  show ?case
  proof (cases "fno < hi")
    case False
    then show ?thesis by (simp add: set_loop_empty)
  next
    case True
    have "(of_nat (fno - unat off) :: u32) = of_nat fno - of_nat (unat off)"
      using 1(2) by (rule of_nat_diff)
    then have idx: "(of_nat fno - off :: u32) = of_nat (fno - unat off) - 0"
      by (simp only: of_nat_unat ucast_id diff_zero)
    have "set_loop p off fno hi st = set_loop (set_state p (of_nat fno - off) st) off (Suc fno) hi st"
      using True by (rule set_loop_first)
    also have "\<dots> = set_loop (set_state p (of_nat fno - off) st) 0 (Suc fno - unat off) (hi - unat off) st"
    proof (rule 1(1) [OF True])
      show "unat off \<le> Suc fno" using 1(2) by simp
    qed
    also have "Suc fno - unat off = Suc (fno - unat off)"
      using 1(2) by (rule Suc_diff_le)
    also have "set_loop (set_state p (of_nat fno - off) st) 0 (Suc (fno - unat off)) (hi - unat off) st
         = set_loop p 0 (fno - unat off) (hi - unat off) st"
    proof -
      have "fno - unat off < hi - unat off" using True 1(2) by simp
      from set_loop_first [OF this, of p 0 st] show ?thesis
        unfolding idx by (rule sym)
    qed
    finally show ?thesis .
  qed
qed

lemma process_pool_eq:
  "process_pool mem = set_loop \<lparr>base_frame_no = 1024, nframes = 7168, nFreeFrames = 7168,
         info_frame_no = 513, bitmap_ptr = 0x201000, bitmap = mem\<rparr> 0 0 7168 Free"
  by (simp add: process_pool_def ContFramePool_new_def Let_def FRAME_SIZE_def)

lemma process_pool_states:
  "unat j < 7168 \<Longrightarrow> get_state (process_pool mem) j = Free"
  by (simp add: process_pool_eq get_state_set_loop)

lemma process_pool_fields:
  "nframes (process_pool mem) = 7168" "nFreeFrames (process_pool mem) = 7168"
  "base_frame_no (process_pool mem) = 1024"
  by (simp_all add: process_pool_eq)

lemma process_pool_inv: "cfp_inv (process_pool mem)"
proof -
  have "get_state (process_pool mem) (of_nat j) \<noteq> Used" if "j < 7168" for j
  proof -
    from that have "unat (of_nat j :: u32) < 7168" by (simp add: unat_of_nat)
    then show ?thesis by (simp add: process_pool_states)
  qed
  then show ?thesis
    by (simp add: cfp_inv_def process_pool_fields)
qed


lemma kernel_pool_inv: "cfp_inv (kernel_pool mem)"
proof -
  have "get_state (kernel_pool mem) (of_nat j) \<noteq> Used" if "j < 512" for j
  proof -
    from that have "unat (of_nat j :: u32) < 512" by (simp add: unat_of_nat)
    then show ?thesis by (simp add: kernel_pool_states)
  qed
  then show ?thesis
    by (simp add: cfp_inv_def kernel_pool_fields)
qed

lemma full_pool_eq:
  "full_pool mem = (set_state (set_loop (kernel_pool mem) 0 1 512 Used) 1 HoS)\<lparr>nFreeFrames := 0\<rparr>"
  by (simp add: full_pool_def kernel_pool_get_frames)

lemma full_pool_states:
  assumes "0 < j" "j < 512"
  shows "get_state (full_pool mem) (of_nat j) = (if j = 1 then HoS else Used)"
proof -
  from assms have uj: "unat (of_nat j :: u32) = j" by (simp add: unat_of_nat)
  with assms have j31: "unat (of_nat j :: u32) < 2 ^ 31" by simp
  have o31: "unat (1 :: u32) < 2 ^ 31" by simp
  have "(1 :: u32) = of_nat j \<longleftrightarrow> j = 1"
  proof
    assume "(1 :: u32) = of_nat j"
    then have "unat (1 :: u32) = unat (of_nat j :: u32)" by simp
    then show "j = 1" by (simp add: uj)
  qed simp
  then show ?thesis
    using assms by (simp add: full_pool_eq get_set_state [OF o31 j31] get_state_set_loop [OF _ j31] uj)
qed

subsection \<open>The claims about the frame pool\<close>

text \<open>
  Claim C4 fails on the code. The kernel's own call, \<open>mark_inaccessible(3840, 256)\<close>
  on the process pool (base 1024), marks the pool-relative frames 2816 to 3071 \<open>Used\<close>
  but then writes \<open>HoS\<close> at index 3840, the absolute frame number, instead of 2816,
  and it leaves \<open>nFreeFrames\<close> at 7168: the head of the range stays \<open>Used\<close>, an
  unrelated free frame becomes \<open>HoS\<close>, and the count is not decreased by 256.
\<close>

theorem mark_inaccessible_hole:
  "get_state (process_pool mem) 2816 = Free
   \<and> get_state (process_pool mem) 3840 = Free
   \<and> nFreeFrames (process_pool mem) = 7168
   \<and> get_state (mark_inaccessible (process_pool mem) 3840 256) 2816 = Used
   \<and> get_state (mark_inaccessible (process_pool mem) 3840 256) 3840 = HoS
   \<and> nFreeFrames (mark_inaccessible (process_pool mem) 3840 256) = 7168"
proof -
  have loop: "set_loop (process_pool mem) 1024 3840 4096 Used
                = set_loop (process_pool mem) 0 2816 3072 Used"
    using set_loop_shift [of 1024 3840 "process_pool mem" 4096 Used] by simp
  have mi: "mark_inaccessible (process_pool mem) 3840 256
              = set_state (set_loop (process_pool mem) 0 2816 3072 Used) 3840 HoS"
    by (simp add: mark_inaccessible_def Let_def process_pool_eq loop [unfolded process_pool_eq])
  have a: "unat (3840 :: u32) < 2 ^ 31" "unat (2816 :: u32) < 2 ^ 31" by simp_all
  show ?thesis
    by (simp add: mi get_set_state [OF a(1)] get_state_set_loop process_pool_states)
       (simp add: process_pool_eq)
qed

text \<open>
  Claim C5, as stated: the first byte of the kernel pool's bitmap reads \<open>0b11101010\<close>,
  with frames 1 to 3 \<open>Used\<close>. On zeroed memory the byte is not \<open>0xEA\<close> and frame 1 is
  not \<open>Used\<close>; one info frame suffices for 512 frames.
\<close>

theorem kernel_pool_first_byte_counterexample:
  "bitmap (kernel_pool zero_mem) 0 \<noteq> 0xEA \<and> get_state (kernel_pool zero_mem) 1 \<noteq> Used"
  by (simp add: kernel_pool_first_byte kernel_pool_states)

text \<open>
  Claim C5, amended: whatever the bitmap memory held before, the first byte reads
  \<open>0b00000011\<close>, \<open>nFreeFrames\<close> is 511, frame 0 is \<open>HoS\<close> and frames 1 to 511 are
  \<open>Free\<close>. The encoding: frame \<open>i\<close> occupies the bits \<open>2 * (i mod 4)\<close> and
  \<open>2 * (i mod 4) + 1\<close> of byte \<open>i div 4\<close>; \<open>set_state\<close> clears the lower one for \<open>Free\<close>
  only and sets the upper one for \<open>HoS\<close> only, so the pairs read \<open>00\<close>, \<open>01\<close> and \<open>11\<close>
  as binary numbers for \<open>Free\<close>, \<open>Used\<close> and \<open>HoS\<close>, and it leaves all other bits alone.
\<close>

theorem kernel_pool_bitmap:
  "bitmap (kernel_pool mem) 0 = 3
   \<and> nFreeFrames (kernel_pool mem) = 511
   \<and> get_state (kernel_pool mem) 0 = HoS
   \<and> (\<forall>j. 0 < unat j \<and> unat j < 512 \<longrightarrow> get_state (kernel_pool mem) j = Free)
   \<and> (\<forall>p i s k m. unat i < 2 ^ 31 \<longrightarrow>
         bit (bitmap (set_state p i s) k) m =
           (if k = unat i div 4 \<and> m div 2 = unat i mod 4
            then (if even m then s \<noteq> Free else s = HoS) else bit (bitmap p k) m))"
proof (intro conjI allI impI)
  show "bitmap (kernel_pool mem) 0 = 3" by (rule kernel_pool_first_byte)
  show "nFreeFrames (kernel_pool mem) = 511" by (rule kernel_pool_fields)
  show "get_state (kernel_pool mem) 0 = HoS" by (simp add: kernel_pool_states)
  show "get_state (kernel_pool mem) j = Free" if "0 < unat j \<and> unat j < 512" for j
    using that by (auto simp add: kernel_pool_states)
  show "bit (bitmap (set_state p i s) k) m =
           (if k = unat i div 4 \<and> m div 2 = unat i mod 4
            then (if even m then s \<noteq> Free else s = HoS) else bit (bitmap p k) m)"
    if "unat i < 2 ^ 31" for p i s k m
    using bitmap_set_state [OF that] by (simp add: state_bit_def)
qed

theorem kernel_pool_bitmap_witness:
  "bitmap (kernel_pool zero_mem) 0 = 3
   \<and> nFreeFrames (kernel_pool zero_mem) = 511
   \<and> get_state (kernel_pool zero_mem) 0 = HoS
   \<and> 0 < unat (1 :: u32) \<and> unat (1 :: u32) < 512
   \<and> get_state (kernel_pool zero_mem) 1 = Free
   \<and> unat (5 :: u32) < 2 ^ 31
   \<and> bit (bitmap (set_state (kernel_pool zero_mem) 5 Used) 1) 2
   \<and> \<not> bit (bitmap (set_state (kernel_pool zero_mem) 5 Used) 1) 3"
proof -
  note th = kernel_pool_bitmap [of zero_mem]
  from th have a: "bitmap (kernel_pool zero_mem) 0 = 3" "nFreeFrames (kernel_pool zero_mem) = 511"
      "get_state (kernel_pool zero_mem) 0 = HoS"
    by blast+
  from th have "0 < unat (1 :: u32) \<and> unat (1 :: u32) < 512 \<longrightarrow> get_state (kernel_pool zero_mem) 1 = Free"
    by blast
  then have b: "get_state (kernel_pool zero_mem) 1 = Free" by simp
  from th have enc: "unat (5 :: u32) < 2 ^ 31 \<longrightarrow>
         bit (bitmap (set_state (kernel_pool zero_mem) 5 Used) 1) m =
           (if 1 = unat (5 :: u32) div 4 \<and> m div 2 = unat (5 :: u32) mod 4
            then (if even m then Used \<noteq> Free else Used = HoS)
            else bit (bitmap (kernel_pool zero_mem) 1) m)" for m
    by blast
  from enc [of 2] enc [of 3] a b show ?thesis by simp
qed

text \<open>
  Claim C6: the kernel pool after \<open>get_frames(511)\<close> holds one allocation from frame 1
  to its last frame 511. Releasing it, \<open>release_frames(513)\<close>, makes \<open>_release_frames\<close>
  read the states of the indices 1 to 512 in turn: the last one is \<open>nframes\<close>, one past
  the last frame of the pool, read before \<open>fno < nframes\<close> is tested.
\<close>

theorem release_reads_past_last_frame:
  "get_frames (kernel_pool mem) 511 = (513, full_pool mem)
   \<and> nframes (full_pool mem) = 512
   \<and> get_state (full_pool mem) 1 = HoS
   \<and> get_state (full_pool mem) 511 = Used
   \<and> release_frames [full_pool mem] 513 = [release_frames_pool (full_pool mem) 1]
   \<and> release_frames_reads (full_pool mem) 1 = map of_nat [1..<513]
   \<and> nframes (full_pool mem) \<in> set (release_frames_reads (full_pool mem) 1)"
proof -
  have nf: "nframes (full_pool mem) = 512" and bs: "base_frame_no (full_pool mem) = 512"
    by (simp_all add: full_pool_eq kernel_pool_fields)
  have gf: "get_frames (kernel_pool mem) 511 = (513, full_pool mem)"
    by (simp add: full_pool_def kernel_pool_get_frames)
  have hos: "get_state (full_pool mem) 1 = HoS"
    using full_pool_states [of 1 mem] by simp
  have last: "get_state (full_pool mem) 511 = Used"
    using full_pool_states [of 511 mem] by simp
  have "release_loop (full_pool mem) (of_nat 1) =
          ((set_loop (full_pool mem) 0 1 512 Free)
             \<lparr>nFreeFrames := nFreeFrames (full_pool mem) + of_nat (512 - 1)\<rparr>,
           map of_nat [Suc 1..<Suc 512])"
  proof (rule release_loop_run)
    show "get_state (full_pool mem) (of_nat j) = Used" if "1 < j" "j < 512" for j
      using that full_pool_states [of j mem] by simp
  qed (simp_all add: nf)
  moreover have "(1 :: u32) # map of_nat [Suc 1..<Suc 512] = map of_nat [1..<513]"
    using upt_conv_Cons [of 1 513] by simp
  ultimately have reads: "release_frames_reads (full_pool mem) 1 = map of_nat [1..<513]"
    by (simp add: release_frames_reads_def hos)
  have "(512 :: u32) = of_nat 512" by simp
  also have "of_nat 512 \<in> set (map of_nat [1..<513] :: u32 list)"
    by (rule imageI [of 512 "set [1..<513]" of_nat, folded set_map]) simp
  finally have mem: "nframes (full_pool mem) \<in> set (release_frames_reads (full_pool mem) 1)"
    by (simp only: nf reads)
  from gf nf hos last reads mem show ?thesis
    by (simp add: bs Let_def)
qed

text \<open>
  Claim C7: on a pool satisfying \<open>cfp_inv\<close>, when \<open>get_frames(n)\<close> with \<open>n \<ge> 1\<close> returns
  \<open>r \<noteq> 0\<close>, then \<open>release_frames(r)\<close> reaches this pool, provided no pool earlier in
  the global list claims frame \<open>r\<close>, and restores \<open>nFreeFrames\<close> to its value before
  the allocation.
\<close>

theorem get_frames_release_frames_restores:
  assumes "cfp_inv p" and "n \<noteq> 0" and "get_frames p n = (r, p')" and "r \<noteq> 0"
    and "\<forall>c \<in> set before. \<not> (r - base_frame_no c < nframes c)"
  shows "release_frames (before @ p' # after) r
           = before @ release_frames_pool p' (r - base_frame_no p') # after
       \<and> nFreeFrames (release_frames_pool p' (r - base_frame_no p')) = nFreeFrames p"
  using release_after_get_frames [OF assms(1-4)] release_frames_skip [OF assms(5)]
  by simp

theorem get_frames_release_frames_restores_witness:
  "cfp_inv (kernel_pool zero_mem) \<and> (3 :: u32) \<noteq> 0
   \<and> get_frames (kernel_pool zero_mem) 3 = (513, three_frames) \<and> (513 :: u32) \<noteq> 0
   \<and> \<not> ((513 :: u32) - base_frame_no (process_pool zero_mem) < nframes (process_pool zero_mem))
   \<and> nFreeFrames (kernel_pool zero_mem) = 511
   \<and> nFreeFrames three_frames = 508
   \<and> release_frames [process_pool zero_mem, three_frames] 513
       = [process_pool zero_mem, release_frames_pool three_frames 1]
   \<and> nFreeFrames (release_frames_pool three_frames 1) = 511"
proof -
  have gf: "get_frames (kernel_pool zero_mem) 3 = (513, three_frames)"
    by (simp add: three_frames_def kernel_pool_get_frames)
  have nz: "(3 :: u32) \<noteq> 0" "(513 :: u32) \<noteq> 0" by simp_all
  have other: "\<not> ((513 :: u32) - base_frame_no (process_pool zero_mem) < nframes (process_pool zero_mem))"
    by (simp add: process_pool_fields)
  then have none: "\<forall>c \<in> set [process_pool zero_mem]. \<not> ((513 :: u32) - base_frame_no c < nframes c)"
    by simp
  have f: "nFreeFrames three_frames = 508" "base_frame_no three_frames = 512"
    by (simp_all add: three_frames_def kernel_pool_get_frames kernel_pool_fields)
  from get_frames_release_frames_restores [OF kernel_pool_inv nz(1) gf nz(2) none, of "[]"]
  show ?thesis
    using kernel_pool_inv gf f other by (simp add: kernel_pool_fields)
qed

text \<open>
  Claim C10: on a pool with at least one frame whose frame 0 is not \<open>Free\<close>,
  \<open>get_frames(0)\<close> returns \<open>base_frame_no + 1\<close> and changes nothing but the state of
  frame 1, which becomes \<open>HoS\<close>: \<open>nFreeFrames\<close> and the state of every other frame stay.
\<close>

theorem get_frames_zero:
  assumes "0 < nframes p" and "get_state p 0 \<noteq> Free"
  shows "get_frames p 0 = (base_frame_no p + 1, set_state p 1 HoS)
       \<and> get_state (set_state p 1 HoS) 1 = HoS
       \<and> nFreeFrames (set_state p 1 HoS) = nFreeFrames p
       \<and> (\<forall>j. unat j < 2 ^ 31 \<and> j \<noteq> 1 \<longrightarrow> get_state (set_state p 1 HoS) j = get_state p j)"
proof (intro conjI allI impI)
  have "0 < unat (nframes p)" using assms(1) by (simp add: word_less_nat_alt)
  then have "scan p 0 0 0 = (Suc 0, 0)"
    using assms(2) by (intro scan_zero) simp_all
  moreover have "set_loop p 0 (Suc 0) (Suc 0) Used = p"
    by (simp add: set_loop_empty)
  ultimately show "get_frames p 0 = (base_frame_no p + 1, set_state p 1 HoS)"
    by (simp add: get_frames_def Let_def)
  show "get_state (set_state p 1 HoS) 1 = HoS"
    by (simp add: get_set_state)
  show "nFreeFrames (set_state p 1 HoS) = nFreeFrames p"
    by simp
  show "get_state (set_state p 1 HoS) j = get_state p j" if "unat j < 2 ^ 31 \<and> j \<noteq> 1" for j
    using that by (simp add: get_set_state)
qed

theorem get_frames_zero_witness:
  "0 < nframes (kernel_pool zero_mem) \<and> get_state (kernel_pool zero_mem) 0 \<noteq> Free
   \<and> get_frames (kernel_pool zero_mem) 0 = (513, set_state (kernel_pool zero_mem) 1 HoS)
   \<and> get_state (set_state (kernel_pool zero_mem) 1 HoS) 1 = HoS
   \<and> nFreeFrames (set_state (kernel_pool zero_mem) 1 HoS) = 511
   \<and> get_state (set_state (kernel_pool zero_mem) 1 HoS) 0 = HoS
   \<and> get_state (set_state (kernel_pool zero_mem) 1 HoS) 2 = Free"
proof -
  have a: "0 < nframes (kernel_pool zero_mem)" by (simp add: kernel_pool_fields)
  have b: "get_state (kernel_pool zero_mem) 0 \<noteq> Free" by (simp add: kernel_pool_states)
  note th = get_frames_zero [OF a b]
  from th have c: "unat j < 2 ^ 31 \<and> j \<noteq> 1 \<longrightarrow>
      get_state (set_state (kernel_pool zero_mem) 1 HoS) j = get_state (kernel_pool zero_mem) j" for j
    by blast
  from th c [of 0] c [of 2] a b show ?thesis
    by (simp add: kernel_pool_fields kernel_pool_states)
qed

section \<open>Properties of the page table\<close>



















end
